theory Spec2Isabelle
  imports Complex_Main
begin

section \<open>JSON values as the handlers see them\<close>

text \<open>
  The signaling server (\<^verbatim>\<open>src/signaling/server.js\<close>) receives text frames, applies
  \<^verbatim>\<open>JSON.parse\<close> to them and reads four properties of the result. \<^verbatim>\<open>JSON.parse\<close> and
  \<^verbatim>\<open>JSON.stringify\<close> belong to the runtime. An inbound frame is given by what \<^verbatim>\<open>JSON.parse\<close>
  makes of it: \<open>None\<close> when it throws, \<open>Some v\<close> when it returns the value \<open>v\<close>. A number of a
  parsed value is a double: a finite one is given by its exact value, \<^verbatim>\<open>-0\<close> is a value of its
  own, and a literal beyond the range of the doubles (\<^verbatim>\<open>1e400\<close>) is parsed as an infinity.
\<close>

datatype number = Finite rat | NegZero | PosInfinity | NegInfinity

datatype json =
    JNull
  | JBool bool
  | JNum number
  | JStr string
  | JArr "json list"
  | JObj "(string \<times> json) list"

datatype error = SyntaxError | TypeError | RangeError

text \<open>
  The call stack of the engine is finite, and the built-ins that recurse over a value throw a
  RangeError when they exhaust it. How many nested calls still fit depends on the engine and
  on the place of the call, so the three places where the handler hands a parsed value to such
  a built-in get a limit each, taken as a parameter: the string conversions of the log line 33,
  \<^verbatim>\<open>JSON.stringify\<close> at line 47 and \<^verbatim>\<open>JSON.stringify\<close> at line 61.
\<close>

record engine =
  log_depth :: nat
  ack_depth :: nat
  relay_depth :: nat

text \<open>
  \<^verbatim>\<open>const { type, roomId, senderId, payload } = data\<close>: reading a property of a parsed
  value. An object gives its own property (for a repeated key \<^verbatim>\<open>JSON.parse\<close> keeps the last
  one), every other non-null value gives \<^verbatim>\<open>undefined\<close> (\<open>None\<close>) for the four names read
  here. Destructuring \<^verbatim>\<open>null\<close> throws; the handler tests for it before it reads.
\<close>

definition property :: "json \<Rightarrow> string \<Rightarrow> json option" where
  "property data name = (case data of JObj kvs \<Rightarrow> map_of (rev kvs) name | _ \<Rightarrow> None)"

fun first_error :: "error option list \<Rightarrow> error option" where
  "first_error [] = None"
| "first_error (None # es) = first_error es"
| "first_error (Some e # es) = Some e"

text \<open>
  A template literal converts each interpolated value to a string; \<open>to_string_error b v\<close> is the
  error that the conversion of \<open>v\<close> throws, if any, when the stack has room for \<open>b\<close> nested calls.
  For a parsed object the conversion is \<^verbatim>\<open>Object.prototype.toString\<close>, unless the object has an
  own property \<^verbatim>\<open>toString\<close>: a parsed value is never callable, \<^verbatim>\<open>valueOf\<close> returns the object
  itself and the conversion throws a TypeError. For an array it is \<^verbatim>\<open>Array.prototype.join\<close>, which
  converts the elements in turn and so calls itself once for every level of nested arrays.
\<close>

fun to_string_error :: "nat \<Rightarrow> json \<Rightarrow> error option" where
  "to_string_error b (JObj kvs) = (if ''toString'' \<in> fst ` set kvs then Some TypeError else None)"
| "to_string_error b (JArr xs) =
     (if b = 0 then Some RangeError else first_error (map (to_string_error (b - 1)) xs))"
| "to_string_error b _ = None"

definition interpolate_error :: "nat \<Rightarrow> json option \<Rightarrow> error option" where
  "interpolate_error b v = (case v of None \<Rightarrow> None | Some j \<Rightarrow> to_string_error b j)"

text \<open>
  Line 33, \<^verbatim>\<open>console.log(`[${roomId}] Received ${type} from ${senderId || 'unknown'}`)\<close>,
  sits inside the \<^verbatim>\<open>try\<close> block: when a conversion throws, the message goes to the
  \<^verbatim>\<open>catch\<close>. A falsy \<^verbatim>\<open>senderId\<close> is a primitive, whose conversion never throws. The log lines
  44 and 62 convert values that line 33 has converted already (line 62 runs only when the
  room was found, and then \<^verbatim>\<open>roomId\<close> is a primitive).
\<close>

definition log_error :: "engine \<Rightarrow> json option \<Rightarrow> json option \<Rightarrow> json option \<Rightarrow> error option" where
  "log_error eng room_id ty sender_id =
     first_error [interpolate_error (log_depth eng) room_id,
                  interpolate_error (log_depth eng) ty,
                  interpolate_error (log_depth eng) sender_id]"

text \<open>
  \<^verbatim>\<open>JSON.stringify\<close> calls itself once for every level of nested arrays and objects:
  \<open>too_deep b v\<close> holds when a stack with room for \<open>b\<close> nested calls is exhausted on \<open>v\<close>. When it
  returns, \<open>written v\<close> is the value that the text denotes, that is what \<^verbatim>\<open>JSON.parse\<close> makes of
  it at the recipient: an infinity is written as \<^verbatim>\<open>null\<close> and \<^verbatim>\<open>-0\<close> as \<^verbatim>\<open>0\<close>; a finite number is
  written so that it reads back as the same double; everything else is written as it is.
\<close>

fun too_deep :: "nat \<Rightarrow> json \<Rightarrow> bool" where
  "too_deep b (JArr xs) = (b = 0 \<or> (\<exists>x \<in> set xs. too_deep (b - 1) x))"
| "too_deep b (JObj kvs) = (b = 0 \<or> (\<exists>v \<in> snd ` set kvs. too_deep (b - 1) v))"
| "too_deep b _ = False"

fun written :: "json \<Rightarrow> json" where
  "written (JNum n) =
     (case n of Finite r \<Rightarrow> JNum (Finite r) | NegZero \<Rightarrow> JNum (Finite 0) | _ \<Rightarrow> JNull)"
| "written (JArr xs) = JArr (map written xs)"
| "written (JObj kvs) = JObj (map (map_prod id written) kvs)"
| "written v = v"

definition stringify :: "nat \<Rightarrow> json \<Rightarrow> error + json" where
  "stringify b v = (if too_deep b v then Inl RangeError else Inr (written v))"

text \<open>
  The keys of the \<^verbatim>\<open>rooms\<close> Map are compared by SameValueZero: primitives by value (\<^verbatim>\<open>-0\<close> is
  the key \<^verbatim>\<open>0\<close>), objects and arrays by identity. Every \<^verbatim>\<open>JSON.parse\<close> call builds new objects,
  so an object or array \<^verbatim>\<open>roomId\<close> is a reference \<open>KRef n\<close>, \<open>n\<close> numbering the parse that made it.
\<close>

datatype key = KUndefined | KNull | KBool bool | KNum number | KStr string | KRef nat

fun key_of :: "nat \<Rightarrow> json option \<Rightarrow> key" where
  "key_of n None = KUndefined"
| "key_of n (Some JNull) = KNull"
| "key_of n (Some (JBool b)) = KBool b"
| "key_of n (Some (JNum r)) = KNum (if r = NegZero then Finite 0 else r)"
| "key_of n (Some (JStr s)) = KStr s"
| "key_of n (Some (JArr xs)) = KRef n"
| "key_of n (Some (JObj kvs)) = KRef n"

text \<open>The truthiness test of \<^verbatim>\<open>ws.roomId && ...\<close> in the close handler.\<close>

fun truthy :: "key \<Rightarrow> bool" where
  "truthy KUndefined = False"
| "truthy KNull = False"
| "truthy (KBool b) = b"
| "truthy (KNum r) = (r \<noteq> Finite 0 \<and> r \<noteq> NegZero)"
| "truthy (KStr s) = (s \<noteq> [])"
| "truthy (KRef n) = True"

section \<open>Connections, rooms and the server state\<close>

type_synonym conn = nat

datatype ready_state = CONNECTING | OPEN | CLOSING | CLOSED

text \<open>
  The fields of a \<^verbatim>\<open>ws\<close> object that the server reads or writes, and one piece of the
  library's own state: \<open>destroyed\<close> says that \<^verbatim>\<open>terminate()\<close> has destroyed the socket, so that
  the \<^verbatim>\<open>close\<close> event of the connection is on its way.
\<close>

record ws =
  isAlive :: bool
  roomId :: key
  senderId :: "json option"
  readyState :: ready_state
  destroyed :: bool

text \<open>
  What a handler does to the outside: \<open>Send c v\<close> is a call of \<^verbatim>\<open>c.send\<close> with a text that
  denotes the JSON value \<open>v\<close>, \<open>Ping c\<close> is \<^verbatim>\<open>c.ping()\<close>, \<open>Terminate c\<close> is \<^verbatim>\<open>c.terminate()\<close>.
\<close>

datatype action = Send conn json | Ping conn | Terminate conn

text \<open>
  \<open>rooms\<close> is the Map of line 12, each room a Set of connections in insertion order;
  \<open>sock\<close> is the store of the \<^verbatim>\<open>ws\<close> objects, which outlive their connection as long as
  a room refers to them; \<open>clients\<close> is \<^verbatim>\<open>wss.clients\<close>; \<open>next_conn\<close> and \<open>next_obj\<close> number
  the connections accepted and the frames parsed so far.
\<close>

record server =
  rooms :: "key \<rightharpoonup> conn list"
  sock :: "conn \<Rightarrow> ws"
  clients :: "conn list"
  next_conn :: nat
  next_obj :: nat

definition new_ws :: ws where
  "new_ws = \<lparr>isAlive = True, roomId = KUndefined, senderId = None, readyState = OPEN,
             destroyed = False\<rparr>"

definition init :: server where
  "init = \<lparr>rooms = Map.empty, sock = (\<lambda>_. new_ws\<lparr>readyState := CLOSED\<rparr>), clients = [],
           next_conn = 0, next_obj = 0\<rparr>"

text \<open>\<^verbatim>\<open>Set.prototype.add\<close> and \<^verbatim>\<open>Set.prototype.delete\<close> on a Set kept in insertion order.\<close>

definition set_add :: "'a \<Rightarrow> 'a list \<Rightarrow> 'a list" where
  "set_add x xs = (if x \<in> set xs then xs else xs @ [x])"

definition set_delete :: "'a \<Rightarrow> 'a list \<Rightarrow> 'a list" where
  "set_delete x xs = removeAll x xs"

section \<open>The message handler (lines 28 to 71)\<close>

text \<open>
  The object of lines 47 to 51 that is handed to \<^verbatim>\<open>JSON.stringify\<close>, which leaves a property
  out when its value is \<^verbatim>\<open>undefined\<close>.
\<close>

definition joined_ack :: "json option \<Rightarrow> nat \<Rightarrow> json" where
  "joined_ack room_id n =
     JObj ([(''type'', JStr ''joined'')]
           @ (case room_id of None \<Rightarrow> [] | Some r \<Rightarrow> [(''roomId'', r)])
           @ [(''peersInRoom'', JNum (Finite (of_nat n)))])"

text \<open>
  Lines 37 to 51: the body of the \<^verbatim>\<open>join-room\<close> branch. When \<^verbatim>\<open>JSON.stringify\<close> throws at line 47
  the room and the connection have been updated already, and nothing is sent.
\<close>

definition join_room ::
  "engine \<Rightarrow> server \<Rightarrow> conn \<Rightarrow> key \<Rightarrow> json option \<Rightarrow> json option
     \<Rightarrow> server \<times> action list \<times> error option" where
  "join_room eng st c k room_id sender_id =
     (let rooms1 = (if rooms st k = None then (rooms st)(k \<mapsto> []) else rooms st);
          members = set_add c (case rooms1 k of Some ms \<Rightarrow> ms | None \<Rightarrow> []);
          rooms2 = rooms1(k \<mapsto> members);
          sock2 = (sock st)(c := (sock st c)\<lparr>roomId := k, senderId := sender_id\<rparr>);
          st' = st\<lparr>rooms := rooms2, sock := sock2\<rparr>
      in case stringify (ack_depth eng) (joined_ack room_id (length members)) of
           Inl e \<Rightarrow> (st', [], Some e)
         | Inr text \<Rightarrow> (st', [Send c text], None))"

text \<open>
  Lines 58 to 64: the \<^verbatim>\<open>forEach\<close> over the room. \<^verbatim>\<open>JSON.stringify(data)\<close> is evaluated for each
  member that is served; when it throws, the loop is left for the \<^verbatim>\<open>catch\<close>.
\<close>

fun relay_loop :: "nat \<Rightarrow> server \<Rightarrow> conn \<Rightarrow> json \<Rightarrow> conn list \<Rightarrow> action list \<times> error option" where
  "relay_loop b st c data [] = ([], None)"
| "relay_loop b st c data (client # rest) =
     (if client \<noteq> c \<and> readyState (sock st client) = OPEN
      then (case stringify b data of
              Inl e \<Rightarrow> ([], Some e)
            | Inr text \<Rightarrow>
                (case relay_loop b st c data rest of
                   (acts, err) \<Rightarrow> (Send client text # acts, err)))
      else relay_loop b st c data rest)"

text \<open>Lines 56 to 65: the body of the relay branch.\<close>

definition relay :: "engine \<Rightarrow> server \<Rightarrow> conn \<Rightarrow> key \<Rightarrow> json \<Rightarrow> action list \<times> error option" where
  "relay eng st c k data =
     (case rooms st k of
        None \<Rightarrow> ([], None)
      | Some room \<Rightarrow> relay_loop (relay_depth eng) st c data room)"

definition is_negotiation :: "json option \<Rightarrow> bool" where
  "is_negotiation ty =
     (ty \<in> set (map (\<lambda>s. Some (JStr s)) [''offer'', ''answer'', ''ice-candidate'']))"

text \<open>
  The handler returns the new state, the calls it made, and the error its \<^verbatim>\<open>catch\<close>
  logged, if any. Nothing leaves the handler as an exception.
\<close>

definition on_message ::
  "engine \<Rightarrow> server \<Rightarrow> conn \<Rightarrow> json option \<Rightarrow> server \<times> action list \<times> error option" where
  "on_message eng st c message =
     (case message of
        None \<Rightarrow> (st, [], Some SyntaxError)
      | Some data \<Rightarrow>
          let here = next_obj st;
              st0 = st\<lparr>next_obj := Suc here\<rparr>
          in if data = JNull then (st0, [], Some TypeError)
             else
               let ty = property data ''type'';
                   room_id = property data ''roomId'';
                   sender_id = property data ''senderId''
               in case log_error eng room_id ty sender_id of
                    Some e \<Rightarrow> (st0, [], Some e)
                  | None \<Rightarrow>
                      let k = key_of here room_id;
                          (st1, acts1, err1) =
                             (if ty = Some (JStr ''join-room'')
                              then join_room eng st0 c k room_id sender_id
                              else (st0, [], None))
                      in case err1 of
                           Some e \<Rightarrow> (st1, acts1, Some e)
                         | None \<Rightarrow>
                             let (acts2, err2) =
                                    (if is_negotiation ty then relay eng st1 c k data
                                     else ([], None))
                             in (st1, acts1 @ acts2, err2))"

section \<open>The other handlers\<close>

text \<open>Lines 21 to 26: a connection is accepted, registered by the library and marked alive.\<close>

definition on_connection :: "server \<Rightarrow> server" where
  "on_connection st =
     (let c = next_conn st
      in st\<lparr>sock := (sock st)(c := new_ws), clients := clients st @ [c], next_conn := Suc c\<rparr>)"

text \<open>Line 26.\<close>

definition on_pong :: "server \<Rightarrow> conn \<Rightarrow> server" where
  "on_pong st c = st\<lparr>sock := (sock st)(c := (sock st c)\<lparr>isAlive := True\<rparr>)\<rparr>"

text \<open>
  Lines 73 to 86. The log line 74 converts \<^verbatim>\<open>ws.roomId\<close>, a value that line 33 has converted
  when it was recorded; the close handler is taken to run on a stack no deeper than the
  message handler's, so that this conversion does not throw.
\<close>

definition on_close :: "server \<Rightarrow> conn \<Rightarrow> server" where
  "on_close st c =
     (let rid = roomId (sock st c)
      in case (if truthy rid then rooms st rid else None) of
           None \<Rightarrow> st
         | Some room \<Rightarrow>
             let room' = set_delete c room
             in if length room' = 0 then st\<lparr>rooms := (rooms st)(rid := None)\<rparr>
                else st\<lparr>rooms := (rooms st)(rid \<mapsto> room')\<rparr>)"

text \<open>
  The library's part. The start of a closing handshake leaves a connection that is not yet
  closed in state CLOSING; \<^verbatim>\<open>terminate()\<close> does the same and destroys the socket. The
  \<^verbatim>\<open>close\<close> event comes later, and then the library sets CLOSED, takes the connection out of
  \<^verbatim>\<open>wss.clients\<close> and runs the handler of line 73.
\<close>

definition closing :: "server \<Rightarrow> conn \<Rightarrow> server" where
  "closing st c =
     (if readyState (sock st c) = CLOSED then st
      else st\<lparr>sock := (sock st)(c := (sock st c)\<lparr>readyState := CLOSING\<rparr>)\<rparr>)"

definition terminate :: "server \<Rightarrow> conn \<Rightarrow> server" where
  "terminate st c =
     (if readyState (sock st c) = CLOSED then st
      else st\<lparr>sock := (sock st)(c := (sock st c)\<lparr>readyState := CLOSING, destroyed := True\<rparr>)\<rparr>)"

definition closed :: "server \<Rightarrow> conn \<Rightarrow> server" where
  "closed st c =
     on_close (st\<lparr>sock := (sock st)(c := (sock st c)\<lparr>readyState := CLOSED\<rparr>),
                  clients := set_delete c (clients st)\<rparr>) c"

text \<open>Lines 93 to 102: one tick of the heartbeat, over \<^verbatim>\<open>wss.clients\<close>.\<close>

definition heartbeat_client :: "server \<Rightarrow> conn \<Rightarrow> server \<times> action list" where
  "heartbeat_client st c =
     (if \<not> isAlive (sock st c) then (terminate st c, [Terminate c])
      else (st\<lparr>sock := (sock st)(c := (sock st c)\<lparr>isAlive := False\<rparr>)\<rparr>, [Ping c]))"

fun heartbeat_loop :: "conn list \<Rightarrow> server \<Rightarrow> server \<times> action list" where
  "heartbeat_loop [] st = (st, [])"
| "heartbeat_loop (c # cs) st =
     (let (st1, acts1) = heartbeat_client st c;
          (st2, acts2) = heartbeat_loop cs st1
      in (st2, acts1 @ acts2))"

definition heartbeat :: "server \<Rightarrow> server \<times> action list" where
  "heartbeat st = heartbeat_loop (clients st) st"

section \<open>The event loop\<close>

datatype event =
    Connect
  | Message conn "json option"
  | Pong conn
  | Closing conn
  | Close conn
  | Tick

text \<open>Messages, pongs and close events come from connections that have not closed yet.\<close>

fun enabled :: "server \<Rightarrow> event \<Rightarrow> bool" where
  "enabled st Connect = True"
| "enabled st Tick = True"
| "enabled st (Message c m) = (c \<in> set (clients st))"
| "enabled st (Pong c) = (c \<in> set (clients st))"
| "enabled st (Closing c) = (c \<in> set (clients st))"
| "enabled st (Close c) = (c \<in> set (clients st))"

fun step :: "engine \<Rightarrow> server \<Rightarrow> event \<Rightarrow> server \<times> action list" where
  "step eng st Connect = (on_connection st, [])"
| "step eng st (Message c m) = (case on_message eng st c m of (st', acts, err) \<Rightarrow> (st', acts))"
| "step eng st (Pong c) = (on_pong st c, [])"
| "step eng st (Closing c) = (closing st c, [])"
| "step eng st (Close c) = (closed st c, [])"
| "step eng st Tick = heartbeat st"

fun exec :: "engine \<Rightarrow> server \<Rightarrow> event list \<Rightarrow> (server \<times> action list) option" where
  "exec eng st [] = Some (st, [])"
| "exec eng st (e # es) =
     (if enabled st e
      then (case step eng st e of (st1, acts1) \<Rightarrow>
              map_option (\<lambda>(st2, acts2). (st2, acts1 @ acts2)) (exec eng st1 es))
      else None)"

inductive reachable :: "engine \<Rightarrow> server \<Rightarrow> bool" for eng :: engine where
  reachable_init: "reachable eng init"
| reachable_step: "reachable eng st \<Longrightarrow> enabled st e \<Longrightarrow> reachable eng (fst (step eng st e))"

text \<open>
  Real time is not part of the model. The one fact about time that is used: the library emits
  the \<^verbatim>\<open>close\<close> event of a destroyed socket within the next turns of the event loop, long before
  the timer of line 93 fires again. So the timer fires in states in which no tracked
  connection has a destroyed socket.
\<close>

definition tick_due :: "server \<Rightarrow> bool" where
  "tick_due st = list_all (\<lambda>c. \<not> destroyed (sock st c)) (clients st)"

section \<open>Predicates used in the statements\<close>

text \<open>
  A parsed frame reaches the dispatch on \<^verbatim>\<open>type\<close> (line 36) when the destructuring of line 31
  and the log line 33 do not throw; every other parsed frame ends in the \<^verbatim>\<open>catch\<close>.
\<close>

definition reaches_dispatch :: "engine \<Rightarrow> json \<Rightarrow> bool" where
  "reaches_dispatch eng data =
     (data \<noteq> JNull \<and>
      log_error eng (property data ''roomId'') (property data ''type'') (property data ''senderId'')
        = None)"

text \<open>The registry holds no empty room, and no member set lists a connection twice.\<close>

definition rooms_ok :: "server \<Rightarrow> bool" where
  "rooms_ok st = (\<forall>k ms. rooms st k = Some ms \<longrightarrow> ms \<noteq> [] \<and> distinct ms)"

text \<open>The four values of \<^verbatim>\<open>type\<close> that the handler acts on.\<close>

definition known_type :: "json option \<Rightarrow> bool" where
  "known_type ty = (ty = Some (JStr ''join-room'') \<or> is_negotiation ty)"

text \<open>Connection \<open>c\<close> is in the member set of the room with key \<open>k\<close>.\<close>

definition member :: "server \<Rightarrow> key \<Rightarrow> conn \<Rightarrow> bool" where
  "member st k c = (case rooms st k of None \<Rightarrow> False | Some ms \<Rightarrow> c \<in> set ms)"

text \<open>
  Every tracked connection is listed once, has been accepted and is not closed; a connection
  that is no longer tracked is not in the room recorded against it when that identifier is
  truthy.
\<close>

definition clients_ok :: "server \<Rightarrow> bool" where
  "clients_ok st =
     (distinct (clients st)
      \<and> (\<forall>c \<in> set (clients st). c < next_conn st \<and> readyState (sock st c) \<noteq> CLOSED)
      \<and> (\<forall>c. c < next_conn st \<and> c \<notin> set (clients st) \<and> truthy (roomId (sock st c))
             \<longrightarrow> \<not> member st (roomId (sock st c)) c))"

text \<open>A value without an infinity and without \<^verbatim>\<open>-0\<close>.\<close>

fun plain :: "json \<Rightarrow> bool" where
  "plain (JNum n) = (case n of Finite r \<Rightarrow> True | _ \<Rightarrow> False)"
| "plain (JArr xs) = (\<forall>x \<in> set xs. plain x)"
| "plain (JObj kvs) = (\<forall>v \<in> snd ` set kvs. plain v)"
| "plain v = True"

section \<open>Sample engine, envelopes and runs\<close>

text \<open>
  The inputs at which the theorems below are instantiated. The sample engine has room for 1000
  nested calls at each of the three places; the sample runs need two, and the deep values
  below have 100000 levels.
\<close>

abbreviation node :: engine where
  "node \<equiv> \<lparr>log_depth = 1000, ack_depth = 1000, relay_depth = 1000\<rparr>"

fun deep_array :: "nat \<Rightarrow> json" where
  "deep_array 0 = JArr []"
| "deep_array (Suc n) = JArr [deep_array n]"

fun deep_object :: "nat \<Rightarrow> json" where
  "deep_object 0 = JObj []"
| "deep_object (Suc n) = JObj [(''a'', deep_object n)]"

abbreviation envelope :: "string \<Rightarrow> json \<Rightarrow> json \<Rightarrow> json \<Rightarrow> json" where
  "envelope ty r s p \<equiv>
     JObj [(''type'', JStr ty), (''roomId'', r), (''senderId'', s), (''payload'', p)]"

abbreviation join_env :: "string \<Rightarrow> string \<Rightarrow> json" where
  "join_env r s \<equiv> JObj [(''type'', JStr ''join-room''), (''roomId'', JStr r), (''senderId'', JStr s)]"

abbreviation offer_env :: "string \<Rightarrow> string \<Rightarrow> json" where
  "offer_env r s \<equiv> envelope ''offer'' (JStr r) (JStr s) (JStr ''X'')"

abbreviation run :: "event list \<Rightarrow> server" where
  "run evs \<equiv> fst (the (exec node init evs))"

abbreviation two_joined :: "event list" where
  "two_joined \<equiv>
     [Connect, Connect, Message 0 (Some (join_env ''r1'' ''robot'')),
      Message 1 (Some (join_env ''r1'' ''operator''))]"

abbreviation three_joined :: "event list" where
  "three_joined \<equiv>
     [Connect, Connect, Connect, Message 0 (Some (join_env ''r1'' ''robot'')),
      Message 1 (Some (join_env ''r1'' ''operator'')),
      Message 2 (Some (join_env ''r1'' ''viewer'')), Closing 2]"

abbreviation two_rooms :: "event list" where
  "two_rooms \<equiv>
     [Connect, Connect, Message 0 (Some (join_env ''r1'' ''robot'')),
      Message 1 (Some (join_env ''r2'' ''operator''))]"



abbreviation joined_r1_then_empty :: "event list" where
  "joined_r1_then_empty \<equiv>
     [Connect, Message 0 (Some (join_env ''r1'' ''robot'')),
      Message 0 (Some (join_env [] ''robot'')), Close 0]"

abbreviation joined_r1_then_unloggable :: "event list" where
  "joined_r1_then_unloggable \<equiv>
     [Connect, Message 0 (Some (join_env ''r1'' ''robot'')),
      Message 0 (Some (envelope ''join-room'' (JStr ''r2'')
                         (JObj [(''toString'', JNum (Finite 1))]) JNull))]"

abbreviation moved_to_r2 :: "event list" where
  "moved_to_r2 \<equiv>
     [Connect, Connect, Message 0 (Some (join_env ''r1'' ''robot'')),
      Message 1 (Some (join_env ''r1'' ''operator'')),
      Message 0 (Some (join_env ''r2'' ''robot'')),
      Message 0 (Some (offer_env ''r2'' ''robot''))]"

section \<open>The handlers, case by case\<close>

lemma set_add_props: "set (set_add x xs) = insert x (set xs)" "set_add x xs \<noteq> []"
  "distinct xs \<Longrightarrow> distinct (set_add x xs)"
  by (auto simp: set_add_def)

lemma join_room_rooms:
  "rooms (fst (join_room eng st c k r s)) =
     (rooms st)(k \<mapsto> set_add c (case rooms st k of None \<Rightarrow> [] | Some ms \<Rightarrow> ms))"
  by (auto simp: join_room_def Let_def split: option.splits sum.splits)

lemma join_room_other:
  "sock (fst (join_room eng st c k r s)) = (sock st)(c := (sock st c)\<lparr>roomId := k, senderId := s\<rparr>)"
  "clients (fst (join_room eng st c k r s)) = clients st"
  "next_conn (fst (join_room eng st c k r s)) = next_conn st"
  "next_obj (fst (join_room eng st c k r s)) = next_obj st"
  by (auto simp: join_room_def Let_def split: sum.splits)

lemma join_room_calls:
  "snd (join_room eng st c k r s) =
     (let ack = joined_ack r (length (set_add c (case rooms st k of None \<Rightarrow> [] | Some ms \<Rightarrow> ms)))
      in if too_deep (ack_depth eng) ack then ([], Some RangeError)
         else ([Send c (written ack)], None))"
  by (auto simp: join_room_def Let_def stringify_def split: option.splits)

lemma relay_loop_written:
  "\<not> too_deep b data \<Longrightarrow>
   relay_loop b st c data room =
     (map (\<lambda>d. Send d (written data))
        (filter (\<lambda>client. client \<noteq> c \<and> readyState (sock st client) = OPEN) room), None)"
  by (induction room) (simp_all add: stringify_def)

lemma relay_loop_too_deep:
  "too_deep b data \<Longrightarrow>
   relay_loop b st c data room =
     ([], if filter (\<lambda>client. client \<noteq> c \<and> readyState (sock st client) = OPEN) room = []
          then None else Some RangeError)"
  by (induction room) (simp_all add: stringify_def)

lemma not_both: "is_negotiation ty \<Longrightarrow> ty \<noteq> Some (JStr ''join-room'')"
  by (auto simp: is_negotiation_def)

lemma on_message_dropped:
  "\<not> reaches_dispatch eng data \<Longrightarrow>
   on_message eng st c (Some data) =
     (st\<lparr>next_obj := Suc (next_obj st)\<rparr>, [],
      if data = JNull then Some TypeError
      else log_error eng (property data ''roomId'') (property data ''type'')
             (property data ''senderId''))"
  by (auto simp: on_message_def reaches_dispatch_def Let_def split: option.splits)

lemma on_message_join:
  assumes "reaches_dispatch eng data" and "property data ''type'' = Some (JStr ''join-room'')"
  shows "on_message eng st c (Some data) =
           join_room eng (st\<lparr>next_obj := Suc (next_obj st)\<rparr>) c
             (key_of (next_obj st) (property data ''roomId''))
             (property data ''roomId'') (property data ''senderId'')"
proof -
  have n: "\<not> is_negotiation (property data ''type'')" using assms(2) not_both by auto
  obtain st1 acts1 err1
    where j: "join_room eng (st\<lparr>next_obj := Suc (next_obj st)\<rparr>) c
                (key_of (next_obj st) (property data ''roomId''))
                (property data ''roomId'') (property data ''senderId'') = (st1, acts1, err1)"
    by (metis prod_cases3)
  show ?thesis
    using assms n unfolding j
    by (cases err1) (simp_all add: on_message_def reaches_dispatch_def Let_def j)
qed

lemma on_message_negotiation:
  assumes "reaches_dispatch eng data" and "is_negotiation (property data ''type'')"
  shows "on_message eng st c (Some data) =
           (st\<lparr>next_obj := Suc (next_obj st)\<rparr>,
            relay eng st c (key_of (next_obj st) (property data ''roomId'')) data)"
proof -
  have r: "relay eng (st\<lparr>next_obj := Suc (next_obj st)\<rparr>) c k data = relay eng st c k data" for k
  proof -
    have "relay_loop b (st\<lparr>next_obj := Suc (next_obj st)\<rparr>) c data room
            = relay_loop b st c data room" for b room
      by (induction room) (simp_all split: sum.splits prod.splits)
    then show ?thesis by (simp add: relay_def split: option.splits)
  qed
  show ?thesis
    using assms not_both[OF assms(2)]
    by (simp add: on_message_def reaches_dispatch_def Let_def r split: prod.splits)
qed

lemma on_message_other:
  assumes "reaches_dispatch eng data" and "\<not> known_type (property data ''type'')"
  shows "on_message eng st c (Some data) = (st\<lparr>next_obj := Suc (next_obj st)\<rparr>, [], None)"
  using assms by (simp add: on_message_def reaches_dispatch_def Let_def known_type_def)

text \<open>
  What the message handler does to the state, whatever the frame: it counts the parse, and on a
  \<^verbatim>\<open>join-room\<close> message that reaches the dispatch it runs the updates of lines 37 to 42.
\<close>

lemma on_message_state:
  "fst (on_message eng st c m) =
     (case m of
        None \<Rightarrow> st
      | Some data \<Rightarrow>
          if reaches_dispatch eng data \<and> property data ''type'' = Some (JStr ''join-room'')
          then fst (join_room eng (st\<lparr>next_obj := Suc (next_obj st)\<rparr>) c
                      (key_of (next_obj st) (property data ''roomId''))
                      (property data ''roomId'') (property data ''senderId''))
          else st\<lparr>next_obj := Suc (next_obj st)\<rparr>)"
proof (cases m)
  case None
  then show ?thesis by (simp add: on_message_def)
next
  case (Some data)
  show ?thesis
  proof (cases "reaches_dispatch eng data")
    case False
    then show ?thesis using Some by (simp add: on_message_dropped)
  next
    case True
    show ?thesis
    proof (cases "property data ''type'' = Some (JStr ''join-room'')")
      case j: True
      then show ?thesis using Some True by (simp add: on_message_join)
    next
      case nj: False
      show ?thesis
      proof (cases "is_negotiation (property data ''type'')")
        case n: True
        then show ?thesis using Some True nj by (simp add: on_message_negotiation)
      next
        case False
        then have "\<not> known_type (property data ''type'')" using nj by (simp add: known_type_def)
        then show ?thesis using Some True nj by (simp add: on_message_other)
      qed
    qed
  qed
qed

lemma on_message_rooms:
  "rooms (fst (on_message eng st c m)) = rooms st
   \<or> (\<exists>data k. m = Some data \<and> reaches_dispatch eng data
         \<and> property data ''type'' = Some (JStr ''join-room'')
         \<and> k = key_of (next_obj st) (property data ''roomId'')
         \<and> rooms (fst (on_message eng st c m)) =
             (rooms st)(k \<mapsto> set_add c (case rooms st k of None \<Rightarrow> [] | Some ms \<Rightarrow> ms)))"
  by (cases m) (auto simp: on_message_state join_room_rooms)

lemma on_message_fields:
  "clients (fst (on_message eng st c m)) = clients st"
  "next_conn (fst (on_message eng st c m)) = next_conn st"
  "next_obj st \<le> next_obj (fst (on_message eng st c m))"
  "isAlive (sock (fst (on_message eng st c m)) c') = isAlive (sock st c')"
  "readyState (sock (fst (on_message eng st c m)) c') = readyState (sock st c')"
  "destroyed (sock (fst (on_message eng st c m)) c') = destroyed (sock st c')"
  "c' \<noteq> c \<Longrightarrow> sock (fst (on_message eng st c m)) c' = sock st c'"
  by (cases m; simp add: on_message_state join_room_other)+

lemma step_Message:
  "fst (step eng st (Message c m)) = fst (on_message eng st c m)"
  "snd (step eng st (Message c m)) = fst (snd (on_message eng st c m))"
  by (simp_all split: prod.splits)

lemma on_close_fields:
  "clients (on_close st c) = clients st" "next_conn (on_close st c) = next_conn st"
  "next_obj (on_close st c) = next_obj st" "sock (on_close st c) = sock st"
  by (simp_all add: on_close_def Let_def split: option.splits)

lemma on_close_rooms_other: "k \<noteq> roomId (sock st c) \<Longrightarrow> rooms (on_close st c) k = rooms st k"
  by (simp add: on_close_def Let_def split: option.splits)

lemma on_close_rooms_None: "rooms st k = None \<Longrightarrow> rooms (on_close st c) k = None"
  by (auto simp: on_close_def Let_def split: option.splits if_splits)

lemma closed_fields:
  "clients (closed st c) = set_delete c (clients st)" "next_conn (closed st c) = next_conn st"
  "next_obj (closed st c) = next_obj st"
  "sock (closed st c) = (sock st)(c := (sock st c)\<lparr>readyState := CLOSED\<rparr>)"
  by (simp_all add: closed_def on_close_fields)

lemma closed_rooms_other: "k \<noteq> roomId (sock st c) \<Longrightarrow> rooms (closed st c) k = rooms st k"
  by (simp add: closed_def on_close_rooms_other)

lemma closed_emptied:
  "truthy (roomId (sock st c)) \<Longrightarrow> rooms st (roomId (sock st c)) = Some ms \<Longrightarrow>
   set_delete c ms = [] \<Longrightarrow> rooms (closed st c) (roomId (sock st c)) = None"
  by (simp add: closed_def on_close_def Let_def)

lemma heartbeat_client_fields:
  "rooms (fst (heartbeat_client st c)) = rooms st"
  "clients (fst (heartbeat_client st c)) = clients st"
  "next_conn (fst (heartbeat_client st c)) = next_conn st"
  "next_obj (fst (heartbeat_client st c)) = next_obj st"
  "roomId (sock (fst (heartbeat_client st c)) c') = roomId (sock st c')"
  "(readyState (sock (fst (heartbeat_client st c)) c') = CLOSED) = (readyState (sock st c') = CLOSED)"
  "destroyed (sock st c') \<Longrightarrow> destroyed (sock (fst (heartbeat_client st c)) c')"
  "\<not> isAlive (sock st c') \<Longrightarrow> \<not> isAlive (sock (fst (heartbeat_client st c)) c')"
  "c' \<noteq> c \<Longrightarrow> sock (fst (heartbeat_client st c)) c' = sock st c'"
  by (auto simp: heartbeat_client_def terminate_def)

lemma heartbeat_loop_Cons:
  "fst (heartbeat_loop (c # cs) st) = fst (heartbeat_loop cs (fst (heartbeat_client st c)))"
  "snd (heartbeat_loop (c # cs) st) =
     snd (heartbeat_client st c) @ snd (heartbeat_loop cs (fst (heartbeat_client st c)))"
  by (simp_all split: prod.splits)

declare heartbeat_loop.simps(2) [simp del]

lemma heartbeat_loop_fields:
  "rooms (fst (heartbeat_loop cs st)) = rooms st"
  "clients (fst (heartbeat_loop cs st)) = clients st"
  "next_conn (fst (heartbeat_loop cs st)) = next_conn st"
  "next_obj (fst (heartbeat_loop cs st)) = next_obj st"
  "roomId (sock (fst (heartbeat_loop cs st)) c') = roomId (sock st c')"
  "(readyState (sock (fst (heartbeat_loop cs st)) c') = CLOSED) = (readyState (sock st c') = CLOSED)"
  by (induction cs arbitrary: st; simp add: heartbeat_loop_Cons heartbeat_client_fields)+



lemma exec_Cons:
  "exec eng st (e # es) = Some (st', acts) \<Longrightarrow>
   enabled st e \<and> (\<exists>acts2. exec eng (fst (step eng st e)) es = Some (st', acts2)
                          \<and> acts = snd (step eng st e) @ acts2)"
  by (cases "step eng st e") (auto split: if_splits)

lemma exec_reachable:
  "reachable eng st \<Longrightarrow> exec eng st evs = Some (st', acts) \<Longrightarrow> reachable eng st'"
proof (induction evs arbitrary: st acts)
  case Nil
  then show ?case by simp
next
  case (Cons e es)
  from exec_Cons[OF Cons.prems(2)] obtain acts2
    where en: "enabled st e" and ex: "exec eng (fst (step eng st e)) es = Some (st', acts2)"
    by blast
  from reachable_step[OF Cons.prems(1) en] ex show ?case by (rule Cons.IH)
qed

section \<open>Invariants of the reachable states\<close>

lemma closing_fields:
  "rooms (closing st c) = rooms st" "clients (closing st c) = clients st"
  "next_conn (closing st c) = next_conn st" "next_obj (closing st c) = next_obj st"
  by (simp_all add: closing_def)

lemma on_message_rooms_ok:
  assumes "rooms_ok st"
  shows "rooms_ok (fst (on_message eng st c m))"
proof -
  have "ms \<noteq> [] \<and> distinct ms"
    if "((rooms st)(k \<mapsto> set_add c (case rooms st k of None \<Rightarrow> [] | Some ms \<Rightarrow> ms))) k' = Some ms"
    for k k' ms
  proof (cases "k' = k")
    case True
    then have "ms = set_add c (case rooms st k of None \<Rightarrow> [] | Some ms \<Rightarrow> ms)"
      using that by simp
    moreover have "distinct (case rooms st k of None \<Rightarrow> [] | Some ms \<Rightarrow> ms)"
      using assms by (auto simp: rooms_ok_def split: option.splits)
    ultimately show ?thesis by (simp add: set_add_props)
  next
    case False
    then show ?thesis using that assms by (simp add: rooms_ok_def)
  qed
  then show ?thesis
    using on_message_rooms[of eng st c m] assms unfolding rooms_ok_def by metis
qed

lemma on_close_rooms_ok: "rooms_ok st \<Longrightarrow> rooms_ok (on_close st c)"
  by (auto simp: on_close_def rooms_ok_def Let_def set_delete_def distinct_removeAll
           split: option.splits if_splits)

lemma step_rooms_ok: "rooms_ok st \<Longrightarrow> rooms_ok (fst (step eng st e))"
proof (cases e)
  case (Message c m)
  assume "rooms_ok st"
  then show ?thesis unfolding Message step_Message by (rule on_message_rooms_ok)
next
  case (Close c)
  assume "rooms_ok st"
  then have "rooms_ok (st\<lparr>sock := (sock st)(c := (sock st c)\<lparr>readyState := CLOSED\<rparr>),
                  clients := set_delete c (clients st)\<rparr>)" by (simp add: rooms_ok_def)
  then show ?thesis using Close by (simp add: closed_def on_close_rooms_ok)
qed (auto simp: rooms_ok_def on_connection_def Let_def on_pong_def closing_fields heartbeat_def
       heartbeat_loop_fields)

lemma reachable_rooms_ok: "reachable eng st \<Longrightarrow> rooms_ok st"
  by (induction rule: reachable.induct) (simp_all add: step_rooms_ok, simp add: rooms_ok_def init_def)

lemma member_join_room:
  "member (fst (join_room eng st d k' r s)) k c = (member st k c \<or> (k = k' \<and> c = d))"
  by (auto simp: member_def join_room_rooms set_add_props split: option.splits)

lemma on_message_member:
  "member st k c \<Longrightarrow> member (fst (on_message eng st d m)) k c"
  "c \<noteq> d \<Longrightarrow> member (fst (on_message eng st d m)) k c = member st k c"
  by (cases m; auto simp: on_message_state member_join_room; simp add: member_def)+

lemma set_delete_keeps:
  "c \<in> set ms \<Longrightarrow> c \<noteq> d \<Longrightarrow> set_delete d ms \<noteq> [] \<and> c \<in> set (set_delete d ms)"
proof -
  assume "c \<in> set ms" "c \<noteq> d"
  then have "c \<in> set (set_delete d ms)" by (simp add: set_delete_def)
  then show ?thesis by auto
qed

lemma on_close_member:
  assumes "member st k c" and "c \<noteq> d \<or> roomId (sock st d) \<noteq> k"
  shows "member (on_close st d) k c"
proof (cases "k = roomId (sock st d)")
  case False
  then show ?thesis using assms(1) by (simp add: member_def on_close_rooms_other)
next
  case True
  then have ne: "c \<noteq> d" using assms(2) by auto
  from assms(1) obtain ms where ms: "rooms st k = Some ms" "c \<in> set ms"
    by (auto simp: member_def split: option.splits)
  show ?thesis
  proof (cases "truthy k")
    case False
    then show ?thesis using True assms(1) by (simp add: on_close_def member_def)
  next
    case t: True
    from set_delete_keeps[OF ms(2) ne]
    show ?thesis using True t ms by (simp add: on_close_def Let_def member_def)
  qed
qed

lemma on_close_not_member:
  "\<not> member st k c \<Longrightarrow> \<not> member (on_close st d) k c"
  by (auto simp: member_def on_close_def Let_def set_delete_def split: option.splits if_splits)

lemma on_close_removes:
  "truthy (roomId (sock st c)) \<Longrightarrow> \<not> member (on_close st c) (roomId (sock st c)) c"
  by (auto simp: member_def on_close_def Let_def set_delete_def split: option.splits if_splits)

lemma closed_member:
  assumes "member st k c" and "c \<noteq> d \<or> roomId (sock st c) \<noteq> k"
  shows "member (closed st d) k c"
proof -
  let ?s = "st\<lparr>sock := (sock st)(d := (sock st d)\<lparr>readyState := CLOSED\<rparr>),
                clients := set_delete d (clients st)\<rparr>"
  have "member ?s k c" using assms(1) by (simp add: member_def)
  moreover have "c \<noteq> d \<or> roomId (sock ?s d) \<noteq> k" using assms(2) by auto
  ultimately show ?thesis unfolding closed_def by (rule on_close_member)
qed

lemma closed_not_member: "\<not> member st k c \<Longrightarrow> \<not> member (closed st d) k c"
proof -
  let ?s = "st\<lparr>sock := (sock st)(d := (sock st d)\<lparr>readyState := CLOSED\<rparr>),
                clients := set_delete d (clients st)\<rparr>"
  assume "\<not> member st k c"
  then have "\<not> member ?s k c" by (simp add: member_def)
  then show ?thesis unfolding closed_def by (rule on_close_not_member)
qed

lemma closed_removes:
  "c \<notin> set (clients (closed st c))"
  "truthy (roomId (sock st c)) \<Longrightarrow> \<not> member (closed st c) (roomId (sock st c)) c"
proof -
  show "c \<notin> set (clients (closed st c))" by (simp add: closed_fields set_delete_def)
  let ?s = "st\<lparr>sock := (sock st)(c := (sock st c)\<lparr>readyState := CLOSED\<rparr>),
                clients := set_delete c (clients st)\<rparr>"
  assume "truthy (roomId (sock st c))"
  then have "truthy (roomId (sock ?s c))" by simp
  from on_close_removes[OF this] show "\<not> member (closed st c) (roomId (sock st c)) c"
    by (simp add: closed_def)
qed

lemma step_clients_ok:
  assumes ok: "clients_ok st" and en: "enabled st e"
  shows "clients_ok (fst (step eng st e))"
proof (cases e)
  case Connect
  then show ?thesis using ok
    by (auto simp: clients_ok_def on_connection_def Let_def new_ws_def member_def less_Suc_eq)
next
  case (Message d m)
  have d: "d \<in> set (clients st)" using en Message by simp
  have "\<not> member (fst (on_message eng st d m)) (roomId (sock (fst (on_message eng st d m)) c)) c"
    if "c < next_conn st" "c \<notin> set (clients st)"
       "truthy (roomId (sock (fst (on_message eng st d m)) c))" for c
  proof -
    from that(2) d have ne: "c \<noteq> d" by auto
    then have s: "sock (fst (on_message eng st d m)) c = sock st c" by (rule on_message_fields(7))
    with that ok have "\<not> member st (roomId (sock st c)) c" by (simp add: clients_ok_def)
    then show ?thesis using s on_message_member(2)[OF ne] by simp
  qed
  then show ?thesis unfolding Message step_Message using ok
    by (simp add: clients_ok_def on_message_fields)
next
  case (Pong d)
  then show ?thesis using ok by (auto simp: clients_ok_def on_pong_def member_def)
next
  case (Closing d)
  then show ?thesis using ok by (auto simp: clients_ok_def closing_def member_def)
next
  case (Close d)
  have "\<not> member (closed st d) (roomId (sock (closed st d) c)) c"
    if "c < next_conn st" "c \<notin> set (clients st) \<or> c = d"
       "truthy (roomId (sock (closed st d) c))" for c
  proof (cases "c = d")
    case True
    then show ?thesis using that(3) closed_removes(2)[of st d] by (simp add: closed_fields)
  next
    case False
    then have "\<not> member st (roomId (sock st c)) c"
      using that ok by (simp add: clients_ok_def closed_fields)
    then show ?thesis using False by (simp add: closed_fields closed_not_member)
  qed
  then show ?thesis using Close ok
    by (auto simp: clients_ok_def closed_fields set_delete_def distinct_removeAll)
next
  case Tick
  then show ?thesis using ok
    by (simp add: clients_ok_def heartbeat_def heartbeat_loop_fields member_def)
qed

lemma reachable_clients_ok: "reachable eng st \<Longrightarrow> clients_ok st"
proof (induction rule: reachable.induct)
  case reachable_init
  show ?case by (simp add: clients_ok_def init_def)
next
  case (reachable_step st e)
  then show ?case by (simp add: step_clients_ok)
qed

text \<open>
  An object or array \<^verbatim>\<open>roomId\<close> is a key that no earlier frame can have used: in a reachable
  state the reference of the next parse has no entry, so such a \<^verbatim>\<open>join-room\<close> always opens a
  room of its own, and a negotiation envelope with such a \<^verbatim>\<open>roomId\<close> never finds a room.
\<close>

lemma room_created_by_join:
  assumes "rooms st k = None" and "rooms (fst (step eng st e)) k \<noteq> None"
  shows "\<exists>c data. e = Message c (Some data) \<and> reaches_dispatch eng data
           \<and> property data ''type'' = Some (JStr ''join-room'')
           \<and> k = key_of (next_obj st) (property data ''roomId'')"
proof (cases e)
  case (Message c m)
  have "rooms (fst (on_message eng st c m)) k \<noteq> None"
    using assms(2) unfolding Message step_Message .
  then show ?thesis using assms(1) on_message_rooms[of eng st c m] Message
    by (auto split: if_splits)
next
  case (Close c)
  then show ?thesis using assms by (simp add: closed_def on_close_rooms_None)
qed (use assms in \<open>auto simp: on_connection_def Let_def on_pong_def closing_fields heartbeat_def
       heartbeat_loop_fields\<close>)

lemma step_next_obj: "next_obj st \<le> next_obj (fst (step eng st e))"
  by (cases e)
     (simp_all add: on_connection_def Let_def on_pong_def closing_fields closed_fields heartbeat_def
        heartbeat_loop_fields on_message_fields split: prod.splits,
      metis fst_conv on_message_fields(3))

lemma key_of_fresh: "key_of n v = KRef i \<Longrightarrow> i = n"
  by (cases "(n, v)" rule: key_of.cases) (auto split: if_splits)

lemma fresh_object_key_unseen:
  "reachable eng st \<Longrightarrow> next_obj st \<le> n \<Longrightarrow> rooms st (KRef n) = None"
proof (induction arbitrary: n rule: reachable.induct)
  case reachable_init
  then show ?case by (simp add: init_def)
next
  case (reachable_step st e)
  have le: "next_obj st \<le> n" using step_next_obj[of st eng e] reachable_step.prems by simp
  then have old: "rooms st (KRef n) = None" by (rule reachable_step.IH)
  show ?case
  proof (rule ccontr)
    assume "rooms (fst (step eng st e)) (KRef n) \<noteq> None"
    from room_created_by_join[OF old this] obtain c data
      where e: "e = Message c (Some data)" and d: "reaches_dispatch eng data"
        and t: "property data ''type'' = Some (JStr ''join-room'')"
        and k: "KRef n = key_of (next_obj st) (property data ''roomId'')" by blast
    from k have "n = next_obj st" using key_of_fresh[of "next_obj st" _ n] by simp
    moreover have "next_obj (fst (step eng st e)) = Suc (next_obj st)"
      unfolding e step_Message using d t by (simp add: on_message_state join_room_other)
    ultimately show False using reachable_step.prems by simp
  qed
qed

section \<open>What is written and what is too deep\<close>

lemma written_plain: "plain v \<Longrightarrow> written v = v"
proof (induction v rule: written.induct)
  case (1 n)
  then show ?case by (cases n) simp_all
next
  case (2 xs)
  then show ?case by (simp add: map_idI)
next
  case (3 kvs)
  have "map_prod id written p = p" if "p \<in> set kvs" for p
  proof -
    obtain k v where p: "p = (k, v)" by (cases p)
    then have "plain v" using that "3.prems" by force
    moreover have "v \<in> Basic_BNFs.snds p" using p by simp
    ultimately show ?thesis using "3.IH"[OF that] p by simp
  qed
  then show ?case by (simp add: map_idI)
qed simp_all

lemma map_of_map_prod:
  "map_of (map (map_prod id f) xs) k = map_option f (map_of xs k)"
  by (induction xs) auto

lemma property_written: "property (written v) name = map_option written (property v name)"
proof (cases v)
  case (JNum n)
  then show ?thesis by (cases n) (simp_all add: property_def)
next
  case (JObj kvs)
  show ?thesis using JObj by (simp add: property_def rev_map map_of_map_prod)
qed (simp_all add: property_def)

lemma joined_ack_written:
  "property (written (joined_ack rid n)) ''type'' = Some (JStr ''joined'')"
  "property (written (joined_ack rid n)) ''roomId'' = map_option written rid"
  "property (written (joined_ack rid n)) ''peersInRoom'' = Some (JNum (Finite (of_nat n)))"
  by (auto simp: joined_ack_def property_def split: option.splits)

lemma to_string_error_deep_array:
  "to_string_error b (deep_array n) = (if b \<le> n then Some RangeError else None)"
  by (induction n arbitrary: b) auto

lemma to_string_error_deep_object: "to_string_error b (deep_object n) = None"
  by (cases n) simp_all

lemma too_deep_deep_object: "too_deep b (deep_object n) = (b \<le> n)"
  by (induction n arbitrary: b) auto

lemma too_deep_deep_array: "too_deep b (deep_array n) = (b \<le> n)"
  by (induction n arbitrary: b) auto

lemma key_of_deep_object: "key_of i (Some (deep_object n)) = KRef i"
  by (cases n) simp_all

lemmas eval_defs = init_def new_ws_def on_connection_def on_pong_def on_close_def closing_def
  terminate_def closed_def heartbeat_def heartbeat_client_def heartbeat_loop.simps on_message_def
  join_room_def relay_def is_negotiation_def joined_ack_def property_def log_error_def
  interpolate_error_def stringify_def set_add_def set_delete_def reaches_dispatch_def
  known_type_def member_def tick_due_def Let_def

lemmas deep_defs = to_string_error_deep_array to_string_error_deep_object too_deep_deep_object
  too_deep_deep_array key_of_deep_object

section \<open>The join-room branch\<close>

text \<open>
  Claim C1 does not hold of every \<^verbatim>\<open>join-room\<close> message. Connection 0 has just been accepted.
  A message whose \<^verbatim>\<open>senderId\<close> is an object with an own \<^verbatim>\<open>toString\<close> property, and a message whose
  \<^verbatim>\<open>roomId\<close> is an array nested deeper than the stack allows, make the log line 33 throw: they
  are dropped, no room is created and nothing is sent. A message whose \<^verbatim>\<open>roomId\<close> is an object
  nested that deep passes the log line and joins its room, but \<^verbatim>\<open>JSON.stringify\<close> throws at line
  47 and no acknowledgment is sent. With the \<^verbatim>\<open>roomId\<close> \<^verbatim>\<open>1e400\<close> the acknowledgment carries
  \<^verbatim>\<open>null\<close> for the room identifier.
\<close>

theorem join_room_counterexample:
  "on_message node (on_connection init) 0
      (Some (envelope ''join-room'' (JStr ''r1'') (JObj [(''toString'', JNum (Finite 1))]) JNull))
     = ((on_connection init)\<lparr>next_obj := 1\<rparr>, [], Some TypeError)
   \<and> on_message node (on_connection init) 0
      (Some (envelope ''join-room'' (deep_array 100000) (JStr ''robot'') JNull))
     = ((on_connection init)\<lparr>next_obj := 1\<rparr>, [], Some RangeError)
   \<and> snd (on_message node (on_connection init) 0
      (Some (envelope ''join-room'' (deep_object 100000) (JStr ''robot'') JNull)))
     = ([], Some RangeError)
   \<and> rooms (fst (on_message node (on_connection init) 0
      (Some (envelope ''join-room'' (deep_object 100000) (JStr ''robot'') JNull)))) (KRef 0)
     = Some [0]
   \<and> snd (on_message node (on_connection init) 0
      (Some (envelope ''join-room'' (JNum PosInfinity) (JStr ''robot'') JNull)))
     = ([Send 0 (JObj [(''type'', JStr ''joined''), (''roomId'', JNull),
                       (''peersInRoom'', JNum (Finite 1))])], None)"
  by (simp add: eval_defs deep_defs)

text \<open>
  Claim C1, amended. A \<^verbatim>\<open>join-room\<close> message that reaches the dispatch, handled for connection
  \<open>c\<close> in a reachable state: an unseen room identifier gets a new room whose only member is \<open>c\<close>;
  in a known room \<open>c\<close> is appended unless it is a member already, and then the member set is
  left as it is; the member sets stay free of duplicates. When \<^verbatim>\<open>JSON.stringify\<close> can write the
  acknowledgment, the only call made is one \<^verbatim>\<open>send\<close> to \<open>c\<close> itself, of a \<^verbatim>\<open>joined\<close> acknowledgment
  that carries the room identifier of the message as \<^verbatim>\<open>JSON.stringify\<close> writes it and the member
  count after the insertion, and no error is caught; when it cannot, no call is made.
\<close>

theorem join_room_handled:
  assumes "reachable eng st"
    and "reaches_dispatch eng data"
    and "property data ''type'' = Some (JStr ''join-room'')"
  shows "let rid = property data ''roomId'';
             k = key_of (next_obj st) rid;
             members = (case rooms st k of None \<Rightarrow> [c]
                        | Some ms \<Rightarrow> if c \<in> set ms then ms else ms @ [c]);
             ack = joined_ack rid (length members)
         in rooms (fst (on_message eng st c (Some data))) = (rooms st)(k \<mapsto> members)
            \<and> distinct members
            \<and> rooms_ok (fst (on_message eng st c (Some data)))
            \<and> snd (on_message eng st c (Some data)) =
                (if too_deep (ack_depth eng) ack then ([], Some RangeError)
                 else ([Send c (written ack)], None))
            \<and> property (written ack) ''type'' = Some (JStr ''joined'')
            \<and> property (written ack) ''roomId'' = map_option written rid
            \<and> property (written ack) ''peersInRoom'' = Some (JNum (Finite (of_nat (length members))))"
proof -
  have ok: "rooms_ok st" using assms(1) by (rule reachable_rooms_ok)
  have d: "distinct (case rooms st k of None \<Rightarrow> [c]
                        | Some ms \<Rightarrow> if c \<in> set ms then ms else ms @ [c])" for k
    using ok by (auto simp: rooms_ok_def split: option.splits)
  have m: "set_add c (case rooms st k of None \<Rightarrow> [] | Some ms \<Rightarrow> ms) =
           (case rooms st k of None \<Rightarrow> [c] | Some ms \<Rightarrow> if c \<in> set ms then ms else ms @ [c])" for k
    by (simp add: set_add_def split: option.splits)
  show ?thesis
    using d on_message_rooms_ok[OF ok, of eng c "Some data"]
    by (simp add: on_message_join[OF assms(2,3)] Let_def join_room_rooms join_room_calls m
          joined_ack_written)
qed

theorem join_room_handled_witness:
  "reachable node (on_connection init)
   \<and> reaches_dispatch node (join_env ''r1'' ''robot'')
   \<and> rooms (fst (on_message node (on_connection init) 0 (Some (join_env ''r1'' ''robot''))))
        (KStr ''r1'') = Some [0]
   \<and> snd (on_message node (on_connection init) 0 (Some (join_env ''r1'' ''robot'')))
       = ([Send 0 (JObj [(''type'', JStr ''joined''), (''roomId'', JStr ''r1''),
                         (''peersInRoom'', JNum (Finite 1))])], None)"
proof -
  let ?m = "join_env ''r1'' ''robot''"
  have r: "reachable node (on_connection init)"
    using reachable_step[OF reachable_init, of Connect node] by simp
  have h: "reaches_dispatch node ?m" by (simp add: eval_defs)
  have t: "property ?m ''type'' = Some (JStr ''join-room'')" by (simp add: property_def)
  have e: "rooms (on_connection init) (KStr ''r1'') = None"
    by (simp add: on_connection_def init_def)
  show ?thesis
    using join_room_handled[OF r h t, of 0] r h e
    by (simp add: Let_def property_def joined_ack_def)
qed

section \<open>The relay branch\<close>

lemma count_list_distinct: "distinct xs \<Longrightarrow> count_list xs x = (if x \<in> set xs then 1 else 0)"
  by (induction xs) auto

lemma count_list_filter: "count_list (filter P xs) x = (if P x then count_list xs x else 0)"
  by (induction xs) auto

lemma count_list_map_Send: "count_list (map (\<lambda>d. Send d v) xs) (Send d v) = count_list xs d"
  by (induction xs) auto

lemma relay_loop_not_sender: "Send c v \<notin> set (fst (relay_loop b st c data room))"
  by (induction room) (auto split: sum.splits prod.splits)

lemma relay_loop_sends: "a \<in> set (fst (relay_loop b st c data room)) \<Longrightarrow> \<exists>d. a = Send d (written data)"
  by (cases "too_deep b data") (auto simp: relay_loop_written relay_loop_too_deep)

lemma relay_loop_recorded:
  "relay_loop b (st\<lparr>sock := (sock st)(c := w)\<rparr>) c data room = relay_loop b st c data room"
  by (induction room) (simp_all split: sum.splits prod.splits)

text \<open>
  Claim C2 does not hold of every broadcast. Connections 0, 1 and 2 are in room \<^verbatim>\<open>r1\<close>,
  connection 0 is OPEN, and connection 1 sends an offer whose payload is nested deeper than the
  stack allows: \<^verbatim>\<open>JSON.stringify\<close> throws at line 61 for the first member to be served, the
  \<^verbatim>\<open>forEach\<close> is left for the \<^verbatim>\<open>catch\<close>, and connection 0 receives nothing.
\<close>

theorem relay_broadcast_counterexample:
  "rooms (run three_joined) (KStr ''r1'') = Some [0, 1, 2]
   \<and> readyState (sock (run three_joined) 0) = OPEN
   \<and> snd (on_message node (run three_joined) 1
             (Some (envelope ''offer'' (JStr ''r1'') (JStr ''operator'') (deep_object 100000))))
       = ([], Some RangeError)"
  by (simp add: eval_defs deep_defs)

text \<open>
  Claim C2, amended. A negotiation envelope that reaches the dispatch and names an existing
  room, in a reachable state: the sender \<open>c\<close> is sent nothing. When \<^verbatim>\<open>JSON.stringify\<close> can write
  the envelope, every call made is a \<^verbatim>\<open>send\<close> of it; each other member of the room whose
  \<^verbatim>\<open>readyState\<close> is OPEN gets exactly one; a member that is not OPEN, and every connection
  outside the room, gets none; no error is caught. When it cannot, no call is made, and a
  RangeError is caught if there was a member to serve.
\<close>

theorem relay_broadcast:
  assumes "reachable eng st"
    and "reaches_dispatch eng data"
    and "is_negotiation (property data ''type'')"
    and "rooms st (key_of (next_obj st) (property data ''roomId'')) = Some room"
  shows "let acts = fst (snd (on_message eng st c (Some data)))
         in (\<forall>v. Send c v \<notin> set acts)
            \<and> (\<not> too_deep (relay_depth eng) data \<longrightarrow>
                 (\<forall>a \<in> set acts. \<exists>d. a = Send d (written data))
                 \<and> (\<forall>d. count_list acts (Send d (written data)) =
                          (if d \<in> set room \<and> d \<noteq> c \<and> readyState (sock st d) = OPEN
                           then 1 else 0))
                 \<and> snd (snd (on_message eng st c (Some data))) = None)
            \<and> (too_deep (relay_depth eng) data \<longrightarrow>
                 acts = []
                 \<and> snd (snd (on_message eng st c (Some data))) =
                     (if \<exists>d \<in> set room. d \<noteq> c \<and> readyState (sock st d) = OPEN
                      then Some RangeError else None))"
proof -
  let ?acts = "fst (snd (on_message eng st c (Some data)))"
  have "rooms_ok st" using assms(1) by (rule reachable_rooms_ok)
  then have d: "distinct room" using assms(4) by (auto simp: rooms_ok_def)
  have om: "snd (on_message eng st c (Some data)) = relay_loop (relay_depth eng) st c data room"
    using assms(4) by (simp add: on_message_negotiation[OF assms(2,3)] relay_def)
  have self: "\<forall>v. Send c v \<notin> set ?acts"
    unfolding om by (simp add: relay_loop_not_sender)
  have rest: "(\<forall>a \<in> set ?acts. \<exists>d. a = Send d (written data))
              \<and> (\<forall>d. count_list ?acts (Send d (written data)) =
                       (if d \<in> set room \<and> d \<noteq> c \<and> readyState (sock st d) = OPEN then 1 else 0))
              \<and> snd (snd (on_message eng st c (Some data))) = None"
    if "\<not> too_deep (relay_depth eng) data"
    unfolding om relay_loop_written[OF that]
    by (auto simp: count_list_map_Send count_list_filter count_list_distinct[OF d])
  have deep: "?acts = []
              \<and> snd (snd (on_message eng st c (Some data))) =
                  (if \<exists>d \<in> set room. d \<noteq> c \<and> readyState (sock st d) = OPEN
                   then Some RangeError else None)"
    if "too_deep (relay_depth eng) data"
    unfolding om relay_loop_too_deep[OF that] by (auto simp: filter_empty_conv)
  show ?thesis unfolding Let_def using self rest deep by blast
qed

theorem relay_broadcast_witness:
  "reachable node (run three_joined)
   \<and> reaches_dispatch node (offer_env ''r1'' ''operator'')
   \<and> is_negotiation (property (offer_env ''r1'' ''operator'') ''type'')
   \<and> rooms (run three_joined)
        (key_of (next_obj (run three_joined)) (property (offer_env ''r1'' ''operator'') ''roomId''))
       = Some [0, 1, 2]
   \<and> \<not> too_deep (relay_depth node) (offer_env ''r1'' ''operator'')
   \<and> readyState (sock (run three_joined) 2) = CLOSING
   \<and> count_list (fst (snd (on_message node (run three_joined) 1 (Some (offer_env ''r1'' ''operator'')))))
        (Send 0 (offer_env ''r1'' ''operator'')) = 1
   \<and> count_list (fst (snd (on_message node (run three_joined) 1 (Some (offer_env ''r1'' ''operator'')))))
        (Send 1 (offer_env ''r1'' ''operator'')) = 0
   \<and> count_list (fst (snd (on_message node (run three_joined) 1 (Some (offer_env ''r1'' ''operator'')))))
        (Send 2 (offer_env ''r1'' ''operator'')) = 0
   \<and> snd (snd (on_message node (run three_joined) 1 (Some (offer_env ''r1'' ''operator'')))) = None"
proof -
  let ?st = "run three_joined"
  let ?offer = "offer_env ''r1'' ''operator''"
  let ?acts = "fst (snd (on_message node ?st 1 (Some ?offer)))"
  have e: "exec node init three_joined = Some (?st, snd (the (exec node init three_joined)))"
    by (simp add: eval_defs)
  have r: "reachable node ?st" by (rule exec_reachable[OF reachable_init e])
  have h: "reaches_dispatch node ?offer" by (simp add: eval_defs)
  have n: "is_negotiation (property ?offer ''type'')" by (simp add: eval_defs)
  have k: "rooms ?st (key_of (next_obj ?st) (property ?offer ''roomId'')) = Some [0, 1, 2]"
    by (simp add: eval_defs)
  have t: "\<not> too_deep (relay_depth node) ?offer" by simp
  have w: "written ?offer = ?offer" by simp
  have s: "readyState (sock ?st 0) = OPEN" "readyState (sock ?st 2) = CLOSING"
    by (simp_all add: eval_defs)
  from relay_broadcast[OF r h n k, of 1] t
  have cnt: "\<forall>d. count_list ?acts (Send d (written ?offer)) =
                  (if d \<in> set [0, 1, 2] \<and> d \<noteq> 1 \<and> readyState (sock ?st d) = OPEN then 1 else 0)"
    and err: "snd (snd (on_message node ?st 1 (Some ?offer))) = None"
    unfolding Let_def by blast+
  have "count_list ?acts (Send 0 ?offer) = 1" "count_list ?acts (Send 1 ?offer) = 0"
    "count_list ?acts (Send 2 ?offer) = 0"
    using cnt[rule_format, of 0] cnt[rule_format, of 1] cnt[rule_format, of 2] s
    unfolding w by simp_all
  with r h n k t s(2) err show ?thesis by blast
qed

text \<open>
  Claim C4. A negotiation envelope whose room identifier has no entry in \<^verbatim>\<open>rooms\<close>: the handler
  makes no call, and leaves \<^verbatim>\<open>rooms\<close>, the \<^verbatim>\<open>ws\<close> objects and \<^verbatim>\<open>wss.clients\<close> as they were. The
  lookup of the unknown room raises nothing: the \<^verbatim>\<open>catch\<close> has an error to log only when the
  log line 33 threw, before the lookup, and then it is that error.
\<close>

theorem relay_unknown_room:
  assumes "is_negotiation (property data ''type'')"
    and "rooms st (key_of (next_obj st) (property data ''roomId'')) = None"
  shows "fst (snd (on_message eng st c (Some data))) = []
         \<and> rooms (fst (on_message eng st c (Some data))) = rooms st
         \<and> sock (fst (on_message eng st c (Some data))) = sock st
         \<and> clients (fst (on_message eng st c (Some data))) = clients st
         \<and> snd (snd (on_message eng st c (Some data))) =
             (if reaches_dispatch eng data then None
              else log_error eng (property data ''roomId'') (property data ''type'')
                     (property data ''senderId''))"
proof (cases "reaches_dispatch eng data")
  case True
  then show ?thesis using assms(2)
    by (simp add: on_message_negotiation[OF True assms(1)] relay_def)
next
  case False
  have "data \<noteq> JNull" using assms(1) by (auto simp: is_negotiation_def property_def)
  then show ?thesis using False by (simp add: on_message_dropped)
qed

theorem relay_unknown_room_witness:
  "is_negotiation (property (offer_env ''r1'' ''operator'') ''type'')
   \<and> rooms (on_connection init)
        (key_of (next_obj (on_connection init)) (property (offer_env ''r1'' ''operator'') ''roomId''))
       = None
   \<and> reaches_dispatch node (offer_env ''r1'' ''operator'')
   \<and> on_message node (on_connection init) 0 (Some (offer_env ''r1'' ''operator''))
        = ((on_connection init)\<lparr>next_obj := 1\<rparr>, [], None)"
proof -
  let ?offer = "offer_env ''r1'' ''operator''"
  let ?st = "on_connection init"
  have n: "is_negotiation (property ?offer ''type'')" by (simp add: eval_defs)
  have k: "rooms ?st (key_of (next_obj ?st) (property ?offer ''roomId'')) = None"
    by (simp add: eval_defs)
  have h: "reaches_dispatch node ?offer" by (simp add: eval_defs)
  have o: "next_obj ?st = 0" by (simp add: eval_defs)
  have "fst (snd (on_message node ?st 0 (Some ?offer))) = []
        \<and> snd (snd (on_message node ?st 0 (Some ?offer))) = None"
    using relay_unknown_room[OF n k, of node 0] h by simp
  moreover have "fst (on_message node ?st 0 (Some ?offer)) = ?st\<lparr>next_obj := 1\<rparr>"
    using o by (simp add: on_message_negotiation[OF h n])
  ultimately have "on_message node ?st 0 (Some ?offer) = (?st\<lparr>next_obj := 1\<rparr>, [], None)"
    by (simp add: prod_eq_iff)
  then show ?thesis using n k h by simp
qed

text \<open>
  Claim C5. A frame that \<^verbatim>\<open>JSON.parse\<close> rejects, a parsed frame without a \<^verbatim>\<open>type\<close> or with a
  \<^verbatim>\<open>type\<close> other than the four known ones, and a parsed frame that ends in the \<^verbatim>\<open>catch\<close> before
  the dispatch are dropped: the handler makes no call (nothing is sent, nothing is terminated)
  and leaves \<^verbatim>\<open>rooms\<close>, the \<^verbatim>\<open>ws\<close> objects (so the \<^verbatim>\<open>readyState\<close> of the connection) and
  \<^verbatim>\<open>wss.clients\<close> as they were.
\<close>

theorem malformed_dropped:
  assumes "case message of None \<Rightarrow> True
           | Some data \<Rightarrow> \<not> known_type (property data ''type'') \<or> \<not> reaches_dispatch eng data"
  shows "fst (snd (on_message eng st c message)) = []
         \<and> rooms (fst (on_message eng st c message)) = rooms st
         \<and> sock (fst (on_message eng st c message)) = sock st
         \<and> clients (fst (on_message eng st c message)) = clients st"
proof (cases message)
  case None
  then show ?thesis by (simp add: on_message_def)
next
  case (Some data)
  show ?thesis
  proof (cases "reaches_dispatch eng data")
    case False
    then show ?thesis using Some by (simp add: on_message_dropped)
  next
    case True
    then have "\<not> known_type (property data ''type'')" using assms Some by simp
    then show ?thesis using Some by (simp add: on_message_other[OF True])
  qed
qed

theorem malformed_dropped_witness:
  "\<not> known_type (property (JObj [(''roomId'', JStr ''r1''), (''payload'', JStr ''X'')]) ''type'')
   \<and> fst (snd (on_message node (on_connection init) 0
                  (Some (JObj [(''roomId'', JStr ''r1''), (''payload'', JStr ''X'')])))) = []
   \<and> rooms (fst (on_message node (on_connection init) 0
                  (Some (JObj [(''roomId'', JStr ''r1''), (''payload'', JStr ''X'')]))))
       = rooms (on_connection init)
   \<and> sock (fst (on_message node (on_connection init) 0
                  (Some (JObj [(''roomId'', JStr ''r1''), (''payload'', JStr ''X'')]))))
       = sock (on_connection init)
   \<and> clients (fst (on_message node (on_connection init) 0
                  (Some (JObj [(''roomId'', JStr ''r1''), (''payload'', JStr ''X'')])))) = [0]"
proof -
  let ?m = "JObj [(''roomId'', JStr ''r1''), (''payload'', JStr ''X'')]"
  have u: "\<not> known_type (property ?m ''type'')"
    by (simp add: known_type_def is_negotiation_def property_def)
  then have "case Some ?m of None \<Rightarrow> True
             | Some data \<Rightarrow> \<not> known_type (property data ''type'') \<or> \<not> reaches_dispatch node data"
    by simp
  from malformed_dropped[OF this, of "on_connection init" 0] u
  show ?thesis by (simp add: on_connection_def init_def)
qed

text \<open>
  Claim C7 does not hold of every relayed envelope. Connections 0 and 1 are in room \<^verbatim>\<open>r1\<close> and
  connection 1 sends an offer whose payload is the number \<^verbatim>\<open>1e400\<close>: \<^verbatim>\<open>JSON.parse\<close> makes an
  infinity of it, \<^verbatim>\<open>JSON.stringify\<close> writes \<^verbatim>\<open>null\<close>, and connection 0 receives the offer with the
  payload \<^verbatim>\<open>null\<close>.
\<close>

theorem relay_verbatim_counterexample:
  "fst (snd (on_message node (run two_joined) 1
              (Some (envelope ''offer'' (JStr ''r1'') (JStr ''operator'') (JNum PosInfinity)))))
     = [Send 0 (envelope ''offer'' (JStr ''r1'') (JStr ''operator'') JNull)]"
  by (simp add: eval_defs)

text \<open>
  Claim C7, amended. Every call the handler makes for a negotiation envelope is a \<^verbatim>\<open>send\<close> of
  the text that \<^verbatim>\<open>JSON.stringify\<close> writes for \<open>data\<close>, the whole value parsed from the sender's
  frame. The value delivered has, under every name, what \<^verbatim>\<open>JSON.stringify\<close> writes for the
  property \<open>data\<close> has under that name, whether the server knows the name or not; and it is
  \<open>data\<close> itself when no number in \<open>data\<close> is an infinity or \<^verbatim>\<open>-0\<close> (an infinity is delivered as
  \<^verbatim>\<open>null\<close>, \<^verbatim>\<open>-0\<close> as \<^verbatim>\<open>0\<close>).
\<close>

theorem relay_verbatim:
  assumes "is_negotiation (property data ''type'')"
  shows "(\<forall>a \<in> set (fst (snd (on_message eng st c (Some data)))). \<exists>d. a = Send d (written data))
         \<and> (\<forall>name. property (written data) name = map_option written (property data name))
         \<and> (plain data \<longrightarrow> written data = data)"
proof -
  have "\<exists>d. a = Send d (written data)"
    if "a \<in> set (fst (snd (on_message eng st c (Some data))))" for a
  proof (cases "reaches_dispatch eng data")
    case True
    then show ?thesis using that relay_loop_sends
      by (auto simp: on_message_negotiation[OF True assms] relay_def split: option.splits)
  next
    case False
    then show ?thesis using that by (simp add: on_message_dropped)
  qed
  then show ?thesis using property_written written_plain by blast
qed

theorem relay_verbatim_witness:
  "is_negotiation (property (offer_env ''r1'' ''operator'') ''type'')
   \<and> plain (offer_env ''r1'' ''operator'')
   \<and> fst (snd (on_message node (run two_joined) 1 (Some (offer_env ''r1'' ''operator'')))) \<noteq> []
   \<and> (\<exists>d. hd (fst (snd (on_message node (run two_joined) 1 (Some (offer_env ''r1'' ''operator'')))))
            = Send d (offer_env ''r1'' ''operator''))"
proof -
  let ?offer = "offer_env ''r1'' ''operator''"
  let ?acts = "fst (snd (on_message node (run two_joined) 1 (Some ?offer)))"
  have n: "is_negotiation (property ?offer ''type'')" by (simp add: eval_defs)
  have p: "plain ?offer" by simp
  have a: "?acts \<noteq> []" by (simp add: eval_defs)
  then have "hd ?acts \<in> set ?acts" by (rule hd_in_set)
  then have "\<exists>d. hd ?acts = Send d (written ?offer)"
    using relay_verbatim[OF n, of node "run two_joined" 1] by blast
  moreover have "written ?offer = ?offer"
    using relay_verbatim[OF n, of node "run two_joined" 1] p by blast
  ultimately show ?thesis using n p a by simp
qed

section \<open>Room lifetime, routing key and liveness flag\<close>

text \<open>
  Claim C3. In every reachable state no room of the registry has an empty member set. An
  entry appears for a key that had none only by a \<^verbatim>\<open>join-room\<close> message for that key, and when
  the cleanup of a closing connection takes the last member out of its room, the entry is
  deleted in that same step.
\<close>

theorem no_empty_room:
  assumes "reachable eng st"
  shows "(\<forall>k ms. rooms st k = Some ms \<longrightarrow> ms \<noteq> [])
         \<and> (\<forall>e k. rooms st k = None \<and> rooms (fst (step eng st e)) k \<noteq> None \<longrightarrow>
               (\<exists>c data. e = Message c (Some data) \<and> reaches_dispatch eng data
                  \<and> property data ''type'' = Some (JStr ''join-room'')
                  \<and> k = key_of (next_obj st) (property data ''roomId'')))
         \<and> (\<forall>c ms. truthy (roomId (sock st c)) \<and> rooms st (roomId (sock st c)) = Some ms
                  \<and> set_delete c ms = [] \<longrightarrow>
               rooms (fst (step eng st (Close c))) (roomId (sock st c)) = None)"
proof -
  have "rooms_ok st" using assms by (rule reachable_rooms_ok)
  then have a: "\<forall>k ms. rooms st k = Some ms \<longrightarrow> ms \<noteq> []" by (simp add: rooms_ok_def)
  have b: "\<forall>e k. rooms st k = None \<and> rooms (fst (step eng st e)) k \<noteq> None \<longrightarrow>
               (\<exists>c data. e = Message c (Some data) \<and> reaches_dispatch eng data
                  \<and> property data ''type'' = Some (JStr ''join-room'')
                  \<and> k = key_of (next_obj st) (property data ''roomId''))"
    using room_created_by_join by blast
  have c: "\<forall>c ms. truthy (roomId (sock st c)) \<and> rooms st (roomId (sock st c)) = Some ms
                  \<and> set_delete c ms = [] \<longrightarrow>
               rooms (fst (step eng st (Close c))) (roomId (sock st c)) = None"
    by (auto intro!: closed_emptied)
  show ?thesis using a b c by blast
qed

theorem no_empty_room_witness:
  "reachable node (run [Connect, Message 0 (Some (join_env ''r1'' ''robot''))])
   \<and> rooms (run [Connect, Message 0 (Some (join_env ''r1'' ''robot''))]) (KStr ''r1'') = Some [0]
   \<and> rooms (fst (step node (run [Connect, Message 0 (Some (join_env ''r1'' ''robot''))]) (Close 0)))
        (KStr ''r1'') = None"
proof -
  let ?evs = "[Connect, Message 0 (Some (join_env ''r1'' ''robot''))]"
  let ?st = "run ?evs"
  have e: "exec node init ?evs = Some (?st, snd (the (exec node init ?evs)))"
    by (simp add: eval_defs)
  have r: "reachable node ?st" by (rule exec_reachable[OF reachable_init e])
  have k: "roomId (sock ?st 0) = KStr ''r1''" by (simp add: eval_defs)
  have m: "rooms ?st (KStr ''r1'') = Some [0]" by (simp add: eval_defs)
  have d: "set_delete (0::nat) [0] = []" by (simp add: set_delete_def)
  have "rooms (fst (step node ?st (Close 0))) (roomId (sock ?st 0)) = None"
    using no_empty_room[OF r] k m d by (metis truthy.simps(5) list.distinct(1))
  then show ?thesis using r m k by simp
qed

text \<open>
  Claim C6 says that the broadcast goes over the room recorded against the connection. It
  does not: connection 1 has joined \<^verbatim>\<open>r2\<close> only, sends an offer that carries \<^verbatim>\<open>roomId: "r1"\<close>,
  and the offer is delivered to connection 0 in \<^verbatim>\<open>r1\<close>; a broadcast over the recorded room
  \<^verbatim>\<open>r2\<close> would deliver nothing.
\<close>

theorem relay_recorded_room_counterexample:
  "roomId (sock (run two_rooms) 1) = KStr ''r2''
   \<and> fst (snd (on_message node (run two_rooms) 1 (Some (offer_env ''r1'' ''operator''))))
       = [Send 0 (offer_env ''r1'' ''operator'')]
   \<and> relay node (run two_rooms) 1 (roomId (sock (run two_rooms) 1))
        (offer_env ''r1'' ''operator'') = ([], None)"
  by (simp add: eval_defs)

text \<open>
  Claim C6, amended. For a negotiation envelope that reaches the dispatch, the broadcast is
  the relay over the room named by the \<^verbatim>\<open>roomId\<close> that the envelope carries, with the
  connection as the exclusion key (line 56 reads the destructured \<^verbatim>\<open>roomId\<close>, not
  \<^verbatim>\<open>ws.roomId\<close>); whatever room identifier is recorded against the connection, the calls are
  the same.
\<close>

theorem relay_envelope_room:
  assumes "reaches_dispatch eng data" and "is_negotiation (property data ''type'')"
  shows "snd (on_message eng st c (Some data))
           = relay eng st c (key_of (next_obj st) (property data ''roomId'')) data
         \<and> snd (on_message eng (st\<lparr>sock := (sock st)(c := (sock st c)\<lparr>roomId := k'\<rparr>)\<rparr>) c
                  (Some data))
           = snd (on_message eng st c (Some data))"
  by (simp add: on_message_negotiation[OF assms] relay_def relay_loop_recorded split: option.splits)

theorem relay_envelope_room_witness:
  "reaches_dispatch node (offer_env ''r1'' ''operator'')
   \<and> is_negotiation (property (offer_env ''r1'' ''operator'') ''type'')
   \<and> snd (on_message node (run two_rooms) 1 (Some (offer_env ''r1'' ''operator'')))
       = relay node (run two_rooms) 1 (KStr ''r1'') (offer_env ''r1'' ''operator'')"
proof -
  let ?offer = "offer_env ''r1'' ''operator''"
  have h: "reaches_dispatch node ?offer" by (simp add: eval_defs)
  have n: "is_negotiation (property ?offer ''type'')" by (simp add: eval_defs)
  show ?thesis using relay_envelope_room[OF h n, of "run two_rooms" 1] h n
    by (simp add: property_def)
qed

text \<open>
  Claim C9 says that a data message sets the liveness flag. It does not: after a tick has
  cleared the flag of connection 0, a message from it is handled and the flag is still false.
\<close>

theorem message_marks_alive_counterexample:
  "\<not> isAlive (sock (fst (heartbeat (on_connection init))) 0)
   \<and> \<not> isAlive (sock (fst (on_message node (fst (heartbeat (on_connection init))) 0
                             (Some (offer_env ''r1'' ''operator'')))) 0)"
  by (simp add: eval_defs)

text \<open>
  Claim C9, amended. The liveness flag is set when the connection is accepted (line 25) and
  when a pong is received (line 26); the message handler leaves the flag of every connection
  as it was.
\<close>

theorem liveness_flag_set:
  "isAlive (sock (on_connection st) (next_conn st))
   \<and> isAlive (sock (on_pong st c) c)
   \<and> isAlive (sock (fst (on_message eng st c m)) c') = isAlive (sock st c')"
  by (simp add: on_message_fields on_connection_def on_pong_def new_ws_def Let_def)

section \<open>Heartbeat\<close>






lemma step_next_conn: "next_conn st \<le> next_conn (fst (step eng st e))"
proof (cases e)
  case (Message c m)
  show ?thesis unfolding Message step_Message by (simp add: on_message_fields)
qed (simp_all add: on_connection_def Let_def on_pong_def closing_fields closed_fields heartbeat_def
       heartbeat_loop_fields)

lemma exec_next_conn: "exec eng st evs = Some (st', acts) \<Longrightarrow> next_conn st \<le> next_conn st'"
proof (induction evs arbitrary: st acts)
  case Nil
  then show ?case by simp
next
  case (Cons e es)
  from exec_Cons[OF Cons.prems] obtain acts2
    where ex: "exec eng (fst (step eng st e)) es = Some (st', acts2)" by blast
  from Cons.IH[OF ex] step_next_conn[of st eng e] show ?case by simp
qed









section \<open>A second join\<close>

lemma step_member_kept:
  assumes "member st k c" and "e \<noteq> Close c"
  shows "member (fst (step eng st e)) k c"
proof (cases e)
  case (Message d m)
  show ?thesis unfolding Message step_Message using assms(1) by (rule on_message_member(1))
next
  case (Close d)
  then have "c \<noteq> d" using assms(2) by auto
  then show ?thesis using Close assms(1) by (simp add: closed_member)
qed (use assms in \<open>auto simp: member_def on_connection_def Let_def on_pong_def closing_fields
       heartbeat_def heartbeat_loop_fields\<close>)

lemma step_clients_kept:
  assumes "c \<in> set (clients st)" and "e \<noteq> Close c"
  shows "c \<in> set (clients (fst (step eng st e)))"
proof (cases e)
  case (Message d m)
  show ?thesis unfolding Message step_Message using assms(1) by (simp add: on_message_fields)
next
  case (Close d)
  then have "c \<noteq> d" using assms(2) by auto
  then show ?thesis using Close assms(1) by (simp add: closed_fields set_delete_def)
qed (use assms in \<open>auto simp: on_connection_def Let_def on_pong_def closing_fields
       heartbeat_def heartbeat_loop_fields\<close>)

lemma exec_member_kept:
  "member st k c \<Longrightarrow> c \<in> set (clients st) \<Longrightarrow> Close c \<notin> set evs \<Longrightarrow>
   exec eng st evs = Some (st', acts) \<Longrightarrow> member st' k c \<and> c \<in> set (clients st')"
proof (induction evs arbitrary: st acts)
  case Nil
  then show ?case by simp
next
  case (Cons e es)
  from Cons.prems(3) have ne: "e \<noteq> Close c" and nes: "Close c \<notin> set es" by auto
  from exec_Cons[OF Cons.prems(4)] obtain acts2
    where ex: "exec eng (fst (step eng st e)) es = Some (st', acts2)" by blast
  from Cons.IH[OF step_member_kept[OF Cons.prems(1) ne] step_clients_kept[OF Cons.prems(2) ne]
      nes ex]
  show ?case .
qed

lemma step_stale:
  assumes "member st k c" and "c \<notin> set (clients st)" and "c < next_conn st" and "enabled st e"
  shows "member (fst (step eng st e)) k c \<and> c \<notin> set (clients (fst (step eng st e)))
         \<and> c < next_conn (fst (step eng st e))"
proof -
  have ne: "e \<noteq> Close c" using assms(2,4) by auto
  have "c \<notin> set (clients (fst (step eng st e)))"
  proof (cases e)
    case (Message d m)
    show ?thesis unfolding Message step_Message using assms(2) by (simp add: on_message_fields)
  next
    case (Close d)
    then show ?thesis using assms(2) by (simp add: closed_fields set_delete_def)
  qed (use assms in \<open>auto simp: on_connection_def Let_def on_pong_def closing_fields
         heartbeat_def heartbeat_loop_fields\<close>)
  then show ?thesis
    using step_member_kept[OF assms(1) ne] step_next_conn[of st eng e] assms(3) by simp
qed

lemma exec_stale:
  "member st k c \<Longrightarrow> c \<notin> set (clients st) \<Longrightarrow> c < next_conn st \<Longrightarrow>
   exec eng st evs = Some (st', acts) \<Longrightarrow> member st' k c \<and> c \<notin> set (clients st')"
proof (induction evs arbitrary: st acts)
  case Nil
  then show ?case by simp
next
  case (Cons e es)
  from exec_Cons[OF Cons.prems(4)] obtain acts2
    where en: "enabled st e" and ex: "exec eng (fst (step eng st e)) es = Some (st', acts2)"
    by blast
  from step_stale[OF Cons.prems(1,2,3) en, of eng]
  have "member (fst (step eng st e)) k c" "c \<notin> set (clients (fst (step eng st e)))"
    "c < next_conn (fst (step eng st e))" by simp_all
  from Cons.IH[OF this ex] show ?case .
qed

lemma relay_reaches_member:
  assumes "member st k c" and "d \<noteq> c" and "readyState (sock st c) = OPEN"
    and "reaches_dispatch eng env" and "is_negotiation (property env ''type'')"
    and "key_of (next_obj st) (property env ''roomId'') = k"
    and "\<not> too_deep (relay_depth eng) env"
  shows "Send c (written env) \<in> set (fst (snd (on_message eng st d (Some env))))"
  using assms(1,2,3,6)
  by (auto simp: on_message_negotiation[OF assms(4,5)] relay_def member_def
        relay_loop_written[OF assms(7)] split: option.splits)

text \<open>
  Claim C10 does not hold of every second join. Connection 0 joins \<^verbatim>\<open>r1\<close>, then the room
  whose identifier is the empty string, then closes: the identifier recorded is falsy, line 77
  skips the cleanup, and the closed connection stays in both rooms. A second \<^verbatim>\<open>join-room\<close> that
  the log line 33 rejects is dropped, and \<^verbatim>\<open>r1\<close> stays recorded. And after connection 0 has moved
  from \<^verbatim>\<open>r1\<close> to \<^verbatim>\<open>r2\<close>, an offer addressed to \<^verbatim>\<open>r1\<close> that \<^verbatim>\<open>JSON.stringify\<close> cannot write is
  delivered to nobody.
\<close>

theorem second_join_counterexample:
  "rooms (run joined_r1_then_empty) (KStr ''r1'') = Some [0]
   \<and> rooms (run joined_r1_then_empty) (KStr []) = Some [0]
   \<and> clients (run joined_r1_then_empty) = []
   \<and> roomId (sock (run joined_r1_then_unloggable) 0) = KStr ''r1''
   \<and> rooms (run joined_r1_then_unloggable) (KStr ''r2'') = None
   \<and> readyState (sock (run moved_to_r2) 0) = OPEN
   \<and> rooms (run moved_to_r2) (KStr ''r1'') = Some [0, 1]
   \<and> snd (on_message node (run moved_to_r2) 1
             (Some (envelope ''offer'' (JStr ''r1'') (JStr ''operator'') (deep_object 100000))))
       = ([], Some RangeError)"
  by (simp add: eval_defs deep_defs)

text \<open>
  Claim C10, amended. Connection \<open>c\<close> is a member of room A and a \<^verbatim>\<open>join-room\<close> message of \<open>c\<close> for
  another room B reaches the dispatch: \<open>c\<close> is then in both member sets and B is recorded
  against it. Whatever happens next, and whatever \<open>c\<close> itself sends, as long as \<open>c\<close> has not
  closed (state \<open>st'\<close>) it stays in A, and while its connection is OPEN it receives every
  negotiation envelope that reaches the dispatch, that another connection addresses to A and
  that \<^verbatim>\<open>JSON.stringify\<close> can write. Its disconnect with B still recorded changes no room other than B, takes it out of
  \<^verbatim>\<open>wss.clients\<close>, and takes it out of B when B's identifier is truthy; and in every state after
  that disconnect the closed connection is still a member of A, so that A is never deleted.
\<close>

theorem second_join_keeps_first_room:
  assumes "reachable eng st" and "c \<in> set (clients st)" and "member st kA c"
    and "reaches_dispatch eng data" and "property data ''type'' = Some (JStr ''join-room'')"
    and "key_of (next_obj st) (property data ''roomId'') = kB" and "kB \<noteq> kA"
    and "exec eng (fst (on_message eng st c (Some data))) evs = Some (st', acts)"
    and "Close c \<notin> set evs"
  shows "member (fst (on_message eng st c (Some data))) kA c
         \<and> member (fst (on_message eng st c (Some data))) kB c
         \<and> roomId (sock (fst (on_message eng st c (Some data))) c) = kB
         \<and> member st' kA c
         \<and> (\<forall>d env. d \<noteq> c \<and> readyState (sock st' c) = OPEN \<and> reaches_dispatch eng env
                 \<and> is_negotiation (property env ''type'')
                 \<and> key_of (next_obj st') (property env ''roomId'') = kA
                 \<and> \<not> too_deep (relay_depth eng) env
               \<longrightarrow> Send c (written env) \<in> set (fst (snd (on_message eng st' d (Some env)))))
         \<and> (roomId (sock st' c) = kB \<longrightarrow>
               (\<forall>k. k \<noteq> kB \<longrightarrow> rooms (closed st' c) k = rooms st' k)
               \<and> (truthy kB \<longrightarrow> \<not> member (closed st' c) kB c)
               \<and> c \<notin> set (clients (closed st' c))
               \<and> (\<forall>evs2 st2 acts2. exec eng (closed st' c) evs2 = Some (st2, acts2) \<longrightarrow>
                     member st2 kA c \<and> rooms st2 kA \<noteq> None \<and> c \<notin> set (clients st2)))"
proof -
  let ?st1 = "fst (on_message eng st c (Some data))"
  have lt: "c < next_conn st"
    using reachable_clients_ok[OF assms(1)] assms(2) by (simp add: clients_ok_def)
  have st1: "?st1 = fst (join_room eng (st\<lparr>next_obj := Suc (next_obj st)\<rparr>) c kB
                         (property data ''roomId'') (property data ''senderId''))"
    using assms(6) by (simp add: on_message_join[OF assms(4,5)])
  have a: "member ?st1 kA c" using assms(3) by (rule on_message_member(1))
  have b: "member ?st1 kB c" unfolding st1 by (simp add: member_join_room)
  have r: "roomId (sock ?st1 c) = kB" unfolding st1 by (simp add: join_room_other)
  have c1: "c \<in> set (clients ?st1)" using assms(2) by (simp add: on_message_fields)
  from exec_member_kept[OF a c1 assms(9,8)]
  have a': "member st' kA c" and c': "c \<in> set (clients st')" by simp_all
  have lt': "c < next_conn st'"
    using exec_next_conn[OF assms(8)] lt by (simp add: on_message_fields)
  have bc: "\<forall>d env. d \<noteq> c \<and> readyState (sock st' c) = OPEN \<and> reaches_dispatch eng env
                 \<and> is_negotiation (property env ''type'')
                 \<and> key_of (next_obj st') (property env ''roomId'') = kA
                 \<and> \<not> too_deep (relay_depth eng) env
               \<longrightarrow> Send c (written env) \<in> set (fst (snd (on_message eng st' d (Some env))))"
    using relay_reaches_member[OF a'] by blast
  have dis: "(\<forall>k. k \<noteq> kB \<longrightarrow> rooms (closed st' c) k = rooms st' k)
             \<and> (truthy kB \<longrightarrow> \<not> member (closed st' c) kB c)
             \<and> c \<notin> set (clients (closed st' c))
             \<and> (\<forall>evs2 st2 acts2. exec eng (closed st' c) evs2 = Some (st2, acts2) \<longrightarrow>
                   member st2 kA c \<and> rooms st2 kA \<noteq> None \<and> c \<notin> set (clients st2))"
    if r': "roomId (sock st' c) = kB"
  proof -
    have o: "\<forall>k. k \<noteq> kB \<longrightarrow> rooms (closed st' c) k = rooms st' k"
      using r' closed_rooms_other by blast
    have ca: "member (closed st' c) kA c" using a' r' assms(7) by (intro closed_member) auto
    have cb: "truthy kB \<longrightarrow> \<not> member (closed st' c) kB c"
      using closed_removes(2)[of st' c] r' by simp
    have cc: "c \<notin> set (clients (closed st' c))" by (rule closed_removes(1))
    have cl: "c < next_conn (closed st' c)" using lt' by (simp add: closed_fields)
    have "member st2 kA c \<and> rooms st2 kA \<noteq> None \<and> c \<notin> set (clients st2)"
      if "exec eng (closed st' c) evs2 = Some (st2, acts2)" for evs2 st2 acts2
      using exec_stale[OF ca cc cl that] by (auto simp: member_def split: option.splits)
    then show ?thesis using o cb cc by blast
  qed
  show ?thesis using a b r a' bc dis by blast
qed

theorem second_join_keeps_first_room_witness:
  "reachable node (run two_joined)
   \<and> 0 \<in> set (clients (run two_joined))
   \<and> member (run two_joined) (KStr ''r1'') 0
   \<and> reaches_dispatch node (join_env ''r2'' ''robot'')
   \<and> key_of (next_obj (run two_joined)) (property (join_env ''r2'' ''robot'') ''roomId'') = KStr ''r2''
   \<and> map_option fst (exec node (fst (on_message node (run two_joined) 0 (Some (join_env ''r2'' ''robot''))))
                        [Message 0 (Some (offer_env ''r2'' ''robot''))])
        = Some (run moved_to_r2)
   \<and> Close 0 \<notin> set [Message 0 (Some (offer_env ''r2'' ''robot''))]
   \<and> member (run moved_to_r2) (KStr ''r1'') 0
   \<and> roomId (sock (run moved_to_r2) 0) = KStr ''r2''
   \<and> Send 0 (offer_env ''r1'' ''operator'')
        \<in> set (fst (snd (on_message node (run moved_to_r2) 1 (Some (offer_env ''r1'' ''operator'')))))
   \<and> \<not> member (closed (run moved_to_r2) 0) (KStr ''r2'') 0
   \<and> 0 \<notin> set (clients (closed (run moved_to_r2) 0))
   \<and> member (fst (step node (closed (run moved_to_r2) 0) Tick)) (KStr ''r1'') 0"
proof -
  let ?st = "run two_joined"
  let ?data = "join_env ''r2'' ''robot''"
  let ?offer = "offer_env ''r1'' ''operator''"
  let ?evs = "[Message 0 (Some (offer_env ''r2'' ''robot''))]"
  let ?st' = "run moved_to_r2"
  have e0: "exec node init two_joined = Some (?st, snd (the (exec node init two_joined)))"
    by (simp add: eval_defs)
  have r: "reachable node ?st" by (rule exec_reachable[OF reachable_init e0])
  have c: "0 \<in> set (clients ?st)" by (simp add: eval_defs)
  have m: "member ?st (KStr ''r1'') 0" by (simp add: eval_defs)
  have h: "reaches_dispatch node ?data" by (simp add: eval_defs)
  have t: "property ?data ''type'' = Some (JStr ''join-room'')" by (simp add: property_def)
  have k: "key_of (next_obj ?st) (property ?data ''roomId'') = KStr ''r2''"
    by (simp add: property_def)
  have ne: "KStr ''r2'' \<noteq> KStr ''r1''" by simp
  have nc: "Close 0 \<notin> set ?evs" by simp
  have e: "exec node (fst (on_message node ?st 0 (Some ?data))) ?evs
             = Some (?st', snd (the (exec node (fst (on_message node ?st 0 (Some ?data))) ?evs)))"
    by (simp add: eval_defs)
  have me: "map_option fst (exec node (fst (on_message node ?st 0 (Some ?data))) ?evs) = Some ?st'"
    by (subst e) simp
  have o: "readyState (sock ?st' 0) = OPEN" by (simp add: eval_defs)
  have rb: "roomId (sock ?st' 0) = KStr ''r2''" by (simp add: eval_defs)
  have ho: "reaches_dispatch node ?offer" by (simp add: eval_defs)
  have no: "is_negotiation (property ?offer ''type'')" by (simp add: eval_defs)
  have ko: "key_of (next_obj ?st') (property ?offer ''roomId'') = KStr ''r1''"
    by (simp add: property_def)
  have td: "\<not> too_deep (relay_depth node) ?offer" by simp
  have w: "written ?offer = ?offer" by simp
  have d: "(1::nat) \<noteq> 0" by simp
  have tr: "truthy (KStr ''r2'')" by simp
  have ex2: "exec node (closed ?st' 0) [Tick]
               = Some (fst (step node (closed ?st' 0) Tick), snd (step node (closed ?st' 0) Tick))"
    by (simp split: prod.splits)
  note th = second_join_keeps_first_room[OF r c m h t k ne e nc]
  from th have a': "member ?st' (KStr ''r1'') 0" by blast
  from th o ho no ko td d
  have "Send 0 (written ?offer) \<in> set (fst (snd (on_message node ?st' 1 (Some ?offer))))"
    by blast
  then have s: "Send 0 ?offer \<in> set (fst (snd (on_message node ?st' 1 (Some ?offer))))"
    unfolding w .
  from th rb tr have nb: "\<not> member (closed ?st' 0) (KStr ''r2'') 0"
    and cc: "0 \<notin> set (clients (closed ?st' 0))" by blast+
  from th rb ex2 have st: "member (fst (step node (closed ?st' 0) Tick)) (KStr ''r1'') 0"
    by blast
  from r c m h k me nc a' rb s nb cc st show ?thesis by blast
qed

end
